theory Spec2Isabelle
  imports Main "HOL-Library.Multiset"
begin

section \<open>Scores: Python integers together with the two float infinities\<close>

text \<open>
  \<^verbatim>\<open>evaluate_board\<close> returns a Python \<^verbatim>\<open>int\<close> (unbounded). The search
  starts its running extrema and its window from \<^verbatim>\<open>-float('inf')\<close> and
  \<^verbatim>\<open>float('inf')\<close> and only ever compares and selects (\<^verbatim>\<open>max\<close>,
  \<^verbatim>\<open>min\<close>, \<^verbatim>\<open><=\<close>, \<^verbatim>\<open>>\<close>); Python compares an \<^verbatim>\<open>int\<close> with a float
  infinity exactly. A search value is therefore an integer or one of the two infinities.
\<close>

datatype score = NegInf | Fin int | PosInf

instantiation score :: linorder
begin

fun less_eq_score :: "score \<Rightarrow> score \<Rightarrow> bool" where
  "less_eq_score NegInf y = True"
| "less_eq_score (Fin a) NegInf = False"
| "less_eq_score (Fin a) (Fin b) = (a \<le> b)"
| "less_eq_score (Fin a) PosInf = True"
| "less_eq_score PosInf NegInf = False"
| "less_eq_score PosInf (Fin b) = False"
| "less_eq_score PosInf PosInf = True"

definition less_score :: "score \<Rightarrow> score \<Rightarrow> bool" where
  "less_score x y = (x \<le> y \<and> \<not> y \<le> x)"

instance
proof
  fix x y z :: score
  show "(x < y) = (x \<le> y \<and> \<not> y \<le> x)"
    by (simp add: less_score_def)
  show "x \<le> x"
    by (cases x) simp_all
  show "x \<le> y \<Longrightarrow> y \<le> z \<Longrightarrow> x \<le> z"
    by (cases x; cases y; cases z) simp_all
  show "x \<le> y \<Longrightarrow> y \<le> x \<Longrightarrow> x = y"
    by (cases x; cases y) simp_all
  show "x \<le> y \<or> y \<le> x"
    by (cases x; cases y) auto
qed

end

section \<open>The rules capability (the \<^verbatim>\<open>chess\<close> library) as a parameter\<close>

text \<open>
  \<^verbatim>\<open>chess.WHITE\<close> is \<^verbatim>\<open>True\<close> and \<^verbatim>\<open>chess.BLACK\<close> is \<^verbatim>\<open>False\<close>: a colour is a
  Python \<^verbatim>\<open>bool\<close>, and the source relies on that when it tests
  \<^verbatim>\<open>outcome.winner\<close> for truth.
\<close>

type_synonym color = bool

definition WHITE :: color where
  "WHITE = True"

definition BLACK :: color where
  "BLACK = False"

datatype piece_type = PAWN | KNIGHT | BISHOP | ROOK | QUEEN | KING

record piece =
  piece_type :: piece_type
  color :: color

type_synonym square = nat

text \<open>\<^verbatim>\<open>chess.Outcome\<close>: the winning colour, or \<^verbatim>\<open>None\<close> for a draw.\<close>

record outcome =
  winner :: "color option"

text \<open>
  Everything the source asks of the library, as functions of the current position \<open>'p\<close>
  (whatever the library observes of a \<^verbatim>\<open>Board\<close>, history included) and of a move \<open>'m\<close>.
  \<open>make_move\<close> is the position that \<^verbatim>\<open>board.push(move)\<close> produces.
\<close>

record ('p, 'm) rules =
  legal_moves :: "'p \<Rightarrow> 'm list"
  make_move :: "'p \<Rightarrow> 'm \<Rightarrow> 'p"
  is_game_over :: "'p \<Rightarrow> bool"
  result :: "'p \<Rightarrow> string"
  outcome :: "'p \<Rightarrow> outcome option"
  piece_map :: "'p \<Rightarrow> (square \<times> piece) list"
  piece_at :: "'p \<Rightarrow> square \<Rightarrow> piece option"
  is_capture :: "'p \<Rightarrow> 'm \<Rightarrow> bool"
  gives_check :: "'p \<Rightarrow> 'm \<Rightarrow> bool"
  san :: "'p \<Rightarrow> 'm \<Rightarrow> string"
  from_square :: "'m \<Rightarrow> square"
  to_square :: "'m \<Rightarrow> square"
  uci :: "'m \<Rightarrow> string"
  square_name :: "square \<Rightarrow> string"
  symbol :: "piece \<Rightarrow> string"

text \<open>
  The mutable \<^verbatim>\<open>Board\<close> object: the current position and the stack of positions that
  \<^verbatim>\<open>push\<close> saved and \<^verbatim>\<open>pop\<close> restores. \<^verbatim>\<open>pop\<close> on an empty stack raises
  \<^verbatim>\<open>IndexError\<close>.
\<close>

record 'p board =
  cur :: 'p
  stack :: "'p list"

datatype error = RecursionError | IndexError | AttributeError

definition push :: "('p, 'm) rules \<Rightarrow> 'p board \<Rightarrow> 'm \<Rightarrow> 'p board" where
  "push R b m = b\<lparr>cur := make_move R (cur b) m, stack := cur b # stack b\<rparr>"

definition pop :: "'p board \<Rightarrow> error + 'p board" where
  "pop b = (case stack b of
              [] \<Rightarrow> Inl IndexError
            | p # ps \<Rightarrow> Inr (b\<lparr>cur := p, stack := ps\<rparr>))"

section \<open>PositionEvaluator: \<^verbatim>\<open>piece_values\<close> and \<^verbatim>\<open>evaluate_board\<close>\<close>

definition piece_values :: "piece_type \<rightharpoonup> int" where
  "piece_values = [PAWN \<mapsto> 1, KNIGHT \<mapsto> 3, BISHOP \<mapsto> 3, ROOK \<mapsto> 5, QUEEN \<mapsto> 9, KING \<mapsto> 0]"

text \<open>\<^verbatim>\<open>d.get(k, default)\<close>\<close>

definition dict_get :: "('k \<rightharpoonup> 'v) \<Rightarrow> 'k \<Rightarrow> 'v \<Rightarrow> 'v" where
  "dict_get d k dflt = (case d k of None \<Rightarrow> dflt | Some v \<Rightarrow> v)"

definition piece_term :: "piece \<Rightarrow> int" where
  "piece_term p = dict_get piece_values (piece_type p) 0 * (if color p = WHITE then 1 else - 1)"

definition evaluate_board :: "('p, 'm) rules \<Rightarrow> 'p board \<Rightarrow> int" where
  "evaluate_board R b =
     (if is_game_over R (cur b) then
        (if result R (cur b) = ''1-0'' then 10000
         else if result R (cur b) = ''0-1'' then - 10000
         else 0)
      else sum_list (map piece_term (map snd (piece_map R (cur b)))))"

section \<open>SearchEngine: \<^verbatim>\<open>minimax\<close> and \<^verbatim>\<open>find_best_move\<close>\<close>

text \<open>
  The two \<^verbatim>\<open>for move in board.legal_moves\<close> statements of \<^verbatim>\<open>minimax\<close>. \<open>child\<close> is the
  recursive call on the board after \<^verbatim>\<open>push\<close>; it returns the score (or the exception)
  together with the board as the call left it. The board is back at the loop's own
  position whenever the generator is resumed, so the moves the loop runs through are
  those enumerated at its entry. An exception leaves the loop at once, with the board as
  it is at that moment.
\<close>

fun max_loop ::
  "('p board \<Rightarrow> score \<Rightarrow> score \<Rightarrow> (error + score) \<times> 'p board) \<Rightarrow> ('p, 'm) rules \<Rightarrow>
   'p board \<Rightarrow> 'm list \<Rightarrow> score \<Rightarrow> score \<Rightarrow> score \<Rightarrow> (error + score) \<times> 'p board" where
  "max_loop child R b [] max_eval alpha beta = (Inr max_eval, b)"
| "max_loop child R b (move # moves) max_eval alpha beta =
     (case child (push R b move) alpha beta of
        (Inl e, b1) \<Rightarrow> (Inl e, b1)
      | (Inr eval_score, b1) \<Rightarrow>
          (case pop b1 of
             Inl e \<Rightarrow> (Inl e, b1)
           | Inr b2 \<Rightarrow>
               (let max_eval' = max max_eval eval_score;
                    alpha' = max alpha eval_score
                in if beta \<le> alpha' then (Inr max_eval', b2)
                   else max_loop child R b2 moves max_eval' alpha' beta)))"

fun min_loop ::
  "('p board \<Rightarrow> score \<Rightarrow> score \<Rightarrow> (error + score) \<times> 'p board) \<Rightarrow> ('p, 'm) rules \<Rightarrow>
   'p board \<Rightarrow> 'm list \<Rightarrow> score \<Rightarrow> score \<Rightarrow> score \<Rightarrow> (error + score) \<times> 'p board" where
  "min_loop child R b [] min_eval alpha beta = (Inr min_eval, b)"
| "min_loop child R b (move # moves) min_eval alpha beta =
     (case child (push R b move) alpha beta of
        (Inl e, b1) \<Rightarrow> (Inl e, b1)
      | (Inr eval_score, b1) \<Rightarrow>
          (case pop b1 of
             Inl e \<Rightarrow> (Inl e, b1)
           | Inr b2 \<Rightarrow>
               (let min_eval' = min min_eval eval_score;
                    beta' = min beta eval_score
                in if beta' \<le> alpha then (Inr min_eval', b2)
                   else min_loop child R b2 moves min_eval' alpha beta')))"

text \<open>
  \<^verbatim>\<open>minimax(board, depth, alpha, beta, maximizing)\<close>. \<open>depth\<close> is a Python \<^verbatim>\<open>int\<close>
  and is only ever tested with \<^verbatim>\<open>depth == 0\<close>, so a negative depth never stops the
  descent. The first argument counts the stack frames still available: the interpreter
  raises \<^verbatim>\<open>RecursionError\<close> when they run out.
\<close>

primrec minimax ::
  "nat \<Rightarrow> ('p, 'm) rules \<Rightarrow> 'p board \<Rightarrow> int \<Rightarrow> score \<Rightarrow> score \<Rightarrow> bool \<Rightarrow>
   (error + score) \<times> 'p board" where
  "minimax 0 R b depth alpha beta maximizing = (Inl RecursionError, b)"
| "minimax (Suc frames) R b depth alpha beta maximizing =
     (if depth = 0 \<or> is_game_over R (cur b) then (Inr (Fin (evaluate_board R b)), b)
      else if maximizing then
        max_loop (\<lambda>b' a' be'. minimax frames R b' (depth - 1) a' be' False) R b
          (legal_moves R (cur b)) NegInf alpha beta
      else
        min_loop (\<lambda>b' a' be'. minimax frames R b' (depth - 1) a' be' True) R b
          (legal_moves R (cur b)) PosInf alpha beta)"

text \<open>The loop of \<^verbatim>\<open>find_best_move\<close> over \<^verbatim>\<open>list(board.legal_moves)\<close>.\<close>

fun root_loop ::
  "('p board \<Rightarrow> (error + score) \<times> 'p board) \<Rightarrow> ('p, 'm) rules \<Rightarrow> 'p board \<Rightarrow> 'm list \<Rightarrow>
   'm option \<Rightarrow> score \<Rightarrow> (error + 'm option) \<times> 'p board" where
  "root_loop child R b [] best_move best_value = (Inr best_move, b)"
| "root_loop child R b (move # moves) best_move best_value =
     (case child (push R b move) of
        (Inl e, b1) \<Rightarrow> (Inl e, b1)
      | (Inr val, b1) \<Rightarrow>
          (case pop b1 of
             Inl e \<Rightarrow> (Inl e, b1)
           | Inr b2 \<Rightarrow>
               (if val > best_value then root_loop child R b2 moves (Some move) val
                else root_loop child R b2 moves best_move best_value)))"

definition find_best_move ::
  "nat \<Rightarrow> ('p, 'm) rules \<Rightarrow> 'p board \<Rightarrow> int \<Rightarrow> (error + 'm option) \<times> 'p board" where
  "find_best_move frames R b depth =
     root_loop (\<lambda>b'. minimax frames R b' (depth - 1) NegInf PosInf False) R b
       (legal_moves R (cur b)) None NegInf"

section \<open>HintGenerator: \<^verbatim>\<open>generate_hint\<close>\<close>

text \<open>\<^verbatim>\<open>str.lower\<close> and \<^verbatim>\<open>str.upper\<close> on the ASCII letters of a piece symbol.\<close>

definition lower :: "string \<Rightarrow> string" where
  "lower s = map (\<lambda>c. let n = (of_char c :: nat) in
                      if 65 \<le> n \<and> n \<le> 90 then char_of (n + 32) else c) s"

definition upper :: "string \<Rightarrow> string" where
  "upper s = map (\<lambda>c. let n = (of_char c :: nat) in
                      if 97 \<le> n \<and> n \<le> 122 then char_of (n - 32) else c) s"

text \<open>
  The separator of the tier-2 text as the source file holds it: the three code points
  U+00E2, U+20AC, U+201C, here in UTF-8.
\<close>

definition tier2_separator :: string where
  "tier2_separator =
     [CHR 0xC3, CHR 0xA2, CHR 0xE2, CHR 0x82, CHR 0xAC, CHR 0xE2, CHR 0x80, CHR 0x9C]"

text \<open>
  The truth value of \<^verbatim>\<open>outcome and outcome.winner\<close>: \<^verbatim>\<open>None\<close> is false, an
  \<^verbatim>\<open>Outcome\<close> object is true, and \<^verbatim>\<open>outcome.winner\<close> is \<^verbatim>\<open>None\<close>, \<^verbatim>\<open>True\<close>
  (White) or \<^verbatim>\<open>False\<close> (Black).
\<close>

definition outcome_and_winner :: "outcome option \<Rightarrow> bool" where
  "outcome_and_winner oc =
     (case oc of
        None \<Rightarrow> False
      | Some oc' \<Rightarrow> (case winner oc' of None \<Rightarrow> False | Some c \<Rightarrow> c))"

text \<open>
  \<^verbatim>\<open>generate_hint(board, best_move, level)\<close>. \<open>best_move\<close> is what
  \<^verbatim>\<open>find_best_move\<close> returned, so it may be \<^verbatim>\<open>None\<close>, and \<^verbatim>\<open>piece_at\<close> may find
  no piece: reading an attribute of \<^verbatim>\<open>None\<close> raises \<^verbatim>\<open>AttributeError\<close>.
\<close>

definition generate_hint ::
  "('p, 'm) rules \<Rightarrow> 'p board \<Rightarrow> 'm option \<Rightarrow> int \<Rightarrow> (error + string) \<times> 'p board" where
  "generate_hint R b best_move level =
     (case best_move of
        None \<Rightarrow> (Inl AttributeError, b)
      | Some mv \<Rightarrow>
          (let piece = piece_at R (cur b) (from_square R mv);
               from_sq = square_name R (from_square R mv);
               to_sq = square_name R (to_square R mv)
           in if level = 1 then
                (case piece of
                   None \<Rightarrow> (Inl AttributeError, b)
                 | Some pc \<Rightarrow>
                     (Inr (''Try moving your '' @ lower (symbol R pc) @ '' from '' @ from_sq @ ''.''), b))
              else if level = 2 then
                (case piece of
                   None \<Rightarrow> (Inl AttributeError, b)
                 | Some pc \<Rightarrow>
                     (Inr (upper (symbol R pc) @ from_sq @ '' to '' @ to_sq @ '' '' @ tier2_separator @ '' '' @
                           (if is_capture R (cur b) mv then ''captures!''
                            else if gives_check R (cur b) mv then ''checks!''
                            else ''good move'')), b))
              else
                (let san_text = san R (cur b) mv;
                     b1 = push R b mv;
                     oc = outcome R (cur b1)
                 in case pop b1 of
                      Inl e \<Rightarrow> (Inl e, b1)
                    | Inr b2 \<Rightarrow>
                        (Inr (''Solution: '' @ san_text @ '' ('' @ uci R mv @ ''). '' @
                              (if outcome_and_winner oc then ''Mate!'' else ''Winning line!'')), b2))))"

section \<open>Exhaustive minimax, for comparison with the pruned search\<close>

text \<open>
  Minimax without a window, following the specification's words: at ply budget 0 or at a
  terminal position the static evaluation; otherwise the maximum (for the maximizing
  side) or the minimum (for the minimizing side) of the values of all children, taken
  over every legal move in enumeration order, starting from the same infinities as the
  source.
\<close>

primrec minimax_exhaustive :: "('p, 'm) rules \<Rightarrow> nat \<Rightarrow> 'p board \<Rightarrow> bool \<Rightarrow> score" where
  "minimax_exhaustive R 0 b maximizing = Fin (evaluate_board R b)"
| "minimax_exhaustive R (Suc d) b maximizing =
     (if is_game_over R (cur b) then Fin (evaluate_board R b)
      else if maximizing then
        foldl max NegInf (map (\<lambda>m. minimax_exhaustive R d (push R b m) False) (legal_moves R (cur b)))
      else
        foldl min PosInf (map (\<lambda>m. minimax_exhaustive R d (push R b m) True) (legal_moves R (cur b))))"

text \<open>The first move whose score is strictly greater than all scores before it.\<close>

fun first_best :: "('m \<times> score) list \<Rightarrow> 'm option \<Rightarrow> score \<Rightarrow> 'm option" where
  "first_best [] best_move best_value = best_move"
| "first_best ((m, v) # rest) best_move best_value =
     (if v > best_value then first_best rest (Some m) v
      else first_best rest best_move best_value)"

definition find_best_move_exhaustive :: "('p, 'm) rules \<Rightarrow> nat \<Rightarrow> 'p board \<Rightarrow> 'm option" where
  "find_best_move_exhaustive R d b =
     first_best (map (\<lambda>m. (m, minimax_exhaustive R (d - 1) (push R b m) False))
                     (legal_moves R (cur b))) None NegInf"

section \<open>The search as a function of values only\<close>

text \<open>
  The same search with the board and the exceptions taken out: what \<^const>\<open>minimax\<close>
  computes when it has frames enough. Used to carry the window argument.
\<close>

fun ab_max_loop :: "('m \<Rightarrow> score \<Rightarrow> score \<Rightarrow> score) \<Rightarrow> 'm list \<Rightarrow> score \<Rightarrow> score \<Rightarrow> score \<Rightarrow> score" where
  "ab_max_loop child [] max_eval alpha beta = max_eval"
| "ab_max_loop child (move # moves) max_eval alpha beta =
     (let eval_score = child move alpha beta;
          max_eval' = max max_eval eval_score;
          alpha' = max alpha eval_score
      in if beta \<le> alpha' then max_eval'
         else ab_max_loop child moves max_eval' alpha' beta)"

fun ab_min_loop :: "('m \<Rightarrow> score \<Rightarrow> score \<Rightarrow> score) \<Rightarrow> 'm list \<Rightarrow> score \<Rightarrow> score \<Rightarrow> score \<Rightarrow> score" where
  "ab_min_loop child [] min_eval alpha beta = min_eval"
| "ab_min_loop child (move # moves) min_eval alpha beta =
     (let eval_score = child move alpha beta;
          min_eval' = min min_eval eval_score;
          beta' = min beta eval_score
      in if beta' \<le> alpha then min_eval'
         else ab_min_loop child moves min_eval' alpha beta')"

primrec alphabeta :: "('p, 'm) rules \<Rightarrow> nat \<Rightarrow> 'p board \<Rightarrow> score \<Rightarrow> score \<Rightarrow> bool \<Rightarrow> score" where
  "alphabeta R 0 b alpha beta maximizing = Fin (evaluate_board R b)"
| "alphabeta R (Suc d) b alpha beta maximizing =
     (if is_game_over R (cur b) then Fin (evaluate_board R b)
      else if maximizing then
        ab_max_loop (\<lambda>m a' be'. alphabeta R d (push R b m) a' be' False)
          (legal_moves R (cur b)) NegInf alpha beta
      else
        ab_min_loop (\<lambda>m a' be'. alphabeta R d (push R b m) a' be' True)
          (legal_moves R (cur b)) PosInf alpha beta)"

text \<open>
  How a pruned value \<open>r\<close> searched in the window \<open>(alpha, beta)\<close> relates to the exact
  value \<open>v\<close>: at or below the window it is an upper bound, at or above it a lower bound,
  and strictly inside it is exact.
\<close>

definition window_exact :: "score \<Rightarrow> score \<Rightarrow> score \<Rightarrow> score \<Rightarrow> bool" where
  "window_exact alpha beta r v =
     ((r \<le> alpha \<longrightarrow> v \<le> r) \<and> (alpha < r \<and> r < beta \<longrightarrow> r = v) \<and> (beta \<le> r \<longrightarrow> r \<le> v))"

section \<open>Reference notions of the specification\<close>

text \<open>The value table as the specification lists it.\<close>

fun spec_value :: "piece_type \<Rightarrow> int" where
  "spec_value PAWN = 1"
| "spec_value KNIGHT = 3"
| "spec_value BISHOP = 3"
| "spec_value ROOK = 5"
| "spec_value QUEEN = 9"
| "spec_value KING = 0"

text \<open>
  Colour mirroring. \<open>swap_color\<close> recolours a piece; \<open>swap_result\<close> exchanges the two
  decisive results. Position \<open>q\<close> is the colour-mirrored counterpart of \<open>p\<close> when it is
  terminal exactly when \<open>p\<close> is, its result is the exchanged one, and its pieces are
  those of \<open>p\<close> recoloured (on whatever squares, in whatever order).
\<close>

definition swap_color :: "piece \<Rightarrow> piece" where
  "swap_color pc = pc\<lparr>color := \<not> color pc\<rparr>"

definition swap_result :: "string \<Rightarrow> string" where
  "swap_result s = (if s = ''1-0'' then ''0-1'' else if s = ''0-1'' then ''1-0'' else s)"

definition mirrored :: "('p, 'm) rules \<Rightarrow> 'p \<Rightarrow> 'p \<Rightarrow> bool" where
  "mirrored R p q =
     (is_game_over R q = is_game_over R p \<and>
      result R q = swap_result (result R p) \<and>
      mset (map snd (piece_map R q)) = image_mset swap_color (mset (map snd (piece_map R p))))"

text \<open>
  Every position without a legal move is terminal (checkmate or stalemate): a property
  of the rules of chess that the search relies on to obtain finite scores.
\<close>

definition no_moves_terminal :: "('p, 'm) rules \<Rightarrow> bool" where
  "no_moves_terminal R = (\<forall>p. legal_moves R p = [] \<longrightarrow> is_game_over R p)"

section \<open>A small rules capability on which the definitions are run\<close>

text \<open>
  A game tree of seven positions numbered like a binary heap: White moves at the root 0,
  Black at 1 and 2, and 3 to 6 are terminal. 5 is a mate delivered by Black, the other
  leaves are draws; 7 stands for a mate delivered by White. Moves are 1 (left) and
  2 (right); for the hint texts a move is the black king leaving e8. Squares are named as \<^verbatim>\<open>chess.SQUARE_NAMES\<close> names them and pieces as
  \<^verbatim>\<open>Piece.symbol\<close> does.
\<close>

definition piece_symbol :: "piece \<Rightarrow> string" where
  "piece_symbol pc =
     (let s = (case piece_type pc of
                 PAWN \<Rightarrow> ''p'' | KNIGHT \<Rightarrow> ''n'' | BISHOP \<Rightarrow> ''b''
               | ROOK \<Rightarrow> ''r'' | QUEEN \<Rightarrow> ''q'' | KING \<Rightarrow> ''k'')
      in if color pc then upper s else s)"

definition square_names :: "square \<Rightarrow> string" where
  "square_names sq = [char_of (97 + sq mod 8), char_of (49 + sq div 8)]"

definition tree_pieces :: "nat \<Rightarrow> (square \<times> piece) list" where
  "tree_pieces p =
     (if p = 1 then
        [(4, \<lparr>piece_type = KING, color = WHITE\<rparr>), (0, \<lparr>piece_type = ROOK, color = WHITE\<rparr>),
         (60, \<lparr>piece_type = KING, color = BLACK\<rparr>)]
      else if p = 2 then
        [(4, \<lparr>piece_type = KING, color = WHITE\<rparr>), (60, \<lparr>piece_type = KING, color = BLACK\<rparr>),
         (56, \<lparr>piece_type = ROOK, color = BLACK\<rparr>)]
      else
        [(4, \<lparr>piece_type = KING, color = WHITE\<rparr>), (60, \<lparr>piece_type = KING, color = BLACK\<rparr>)])"

definition tree_rules :: "(nat, nat) rules" where
  "tree_rules =
     \<lparr>legal_moves = (\<lambda>p. if p < 3 then [1, 2] else []),
      make_move = (\<lambda>p m. 2 * p + m),
      is_game_over = (\<lambda>p. 3 \<le> p),
      result = (\<lambda>p. if p = 5 then ''0-1'' else if p = 7 then ''1-0''
                     else if 3 \<le> p then ''1/2-1/2'' else ''*''),
      outcome = (\<lambda>p. if p = 5 then Some \<lparr>winner = Some BLACK\<rparr>
                      else if p = 7 then Some \<lparr>winner = Some WHITE\<rparr>
                      else if 3 \<le> p then Some \<lparr>winner = None\<rparr> else None),
      piece_map = tree_pieces,
      piece_at = (\<lambda>p. map_of (tree_pieces p)),
      is_capture = (\<lambda>p m. False),
      gives_check = (\<lambda>p m. 2 * p + m = 5),
      san = (\<lambda>p m. ''K'' @ square_names (50 + m)),
      from_square = (\<lambda>m. 60),
      to_square = (\<lambda>m. 50 + m),
      uci = (\<lambda>m. square_names 60 @ square_names (50 + m)),
      square_name = square_names,
      symbol = piece_symbol\<rparr>"

definition at_position :: "'p \<Rightarrow> 'p board" where
  "at_position p = \<lparr>cur = p, stack = []\<rparr>"

section \<open>Basic facts\<close>


lemma pop_push: "pop (push R b m) = Inr b"
  by (simp add: pop_def push_def)

lemma cur_push: "cur (push R b m) = make_move R (cur b) m"
  by (simp add: push_def)

lemma max_loop_restores:
  assumes "max_loop child R b ms M a be = (Inr r, b')"
    and "\<And>m a be v b'. m \<in> set ms \<Longrightarrow> child (push R b m) a be = (Inr v, b') \<Longrightarrow> b' = push R b m"
  shows "b' = b"
  using assms
proof (induction ms arbitrary: M a)
  case Nil
  then show ?case by simp
next
  case (Cons m ms)
  obtain res b1 where c: "child (push R b m) a be = (res, b1)"
    by (cases "child (push R b m) a be")
  show ?case
  proof (cases res)
    case (Inl e)
    with Cons.prems(1) c show ?thesis by simp
  next
    case (Inr v)
    with c Cons.prems(2) have b1: "b1 = push R b m" by simp
    show ?thesis
    proof (cases "be \<le> max a v")
      case True
      with Cons.prems(1) c Inr b1 show ?thesis
        by (simp add: pop_push Let_def)
    next
      case False
      with Cons.prems(1) c Inr b1
      have "max_loop child R b ms (max M v) (max a v) be = (Inr r, b')"
        by (simp add: pop_push Let_def)
      then show ?thesis
        by (rule Cons.IH) (use Cons.prems(2) in auto)
    qed
  qed
qed

lemma min_loop_restores:
  assumes "min_loop child R b ms M a be = (Inr r, b')"
    and "\<And>m a be v b'. m \<in> set ms \<Longrightarrow> child (push R b m) a be = (Inr v, b') \<Longrightarrow> b' = push R b m"
  shows "b' = b"
  using assms
proof (induction ms arbitrary: M be)
  case Nil
  then show ?case by simp
next
  case (Cons m ms)
  obtain res b1 where c: "child (push R b m) a be = (res, b1)"
    by (cases "child (push R b m) a be")
  show ?case
  proof (cases res)
    case (Inl e)
    with Cons.prems(1) c show ?thesis by simp
  next
    case (Inr v)
    with c Cons.prems(2) have b1: "b1 = push R b m" by simp
    show ?thesis
    proof (cases "min be v \<le> a")
      case True
      with Cons.prems(1) c Inr b1 show ?thesis
        by (simp add: pop_push Let_def)
    next
      case False
      with Cons.prems(1) c Inr b1
      have "min_loop child R b ms (min M v) a (min be v) = (Inr r, b')"
        by (simp add: pop_push Let_def)
      then show ?thesis
        by (rule Cons.IH) (use Cons.prems(2) in auto)
    qed
  qed
qed

lemma minimax_restores:
  "minimax frames R b depth a be mx = (Inr r, b') \<Longrightarrow> b' = b"
proof (induction frames arbitrary: b depth a be mx r b')
  case 0
  then show ?case by simp
next
  case (Suc frames)
  show ?case
  proof (cases "depth = 0 \<or> is_game_over R (cur b)")
    case True
    with Suc.prems show ?thesis by auto
  next
    case False
    show ?thesis
    proof (cases mx)
      case True
      with False Suc.prems
      have "max_loop (\<lambda>b' a' be'. minimax frames R b' (depth - 1) a' be' False) R b
              (legal_moves R (cur b)) NegInf a be = (Inr r, b')" by simp
      then show ?thesis
        by (rule max_loop_restores) (rule Suc.IH)
    next
      case mxF: False
      with False Suc.prems
      have "min_loop (\<lambda>b' a' be'. minimax frames R b' (depth - 1) a' be' True) R b
              (legal_moves R (cur b)) PosInf a be = (Inr r, b')" by simp
      then show ?thesis
        by (rule min_loop_restores) (rule Suc.IH)
    qed
  qed
qed

lemma root_loop_restores:
  assumes "root_loop child R b ms bm bv = (Inr r, b')"
    and "\<And>m v b'. m \<in> set ms \<Longrightarrow> child (push R b m) = (Inr v, b') \<Longrightarrow> b' = push R b m"
  shows "b' = b"
  using assms
proof (induction ms arbitrary: bm bv)
  case Nil
  then show ?case by simp
next
  case (Cons m ms)
  obtain res b1 where c: "child (push R b m) = (res, b1)"
    by (cases "child (push R b m)")
  show ?case
  proof (cases res)
    case (Inl e)
    with Cons.prems(1) c show ?thesis by simp
  next
    case (Inr v)
    with c Cons.prems(2) have b1: "b1 = push R b m" by simp
    show ?thesis
    proof (cases "v > bv")
      case True
      with Cons.prems(1) c Inr b1
      have "root_loop child R b ms (Some m) v = (Inr r, b')"
        by (simp add: pop_push)
      then show ?thesis
        by (rule Cons.IH) (use Cons.prems(2) in auto)
    next
      case False
      with Cons.prems(1) c Inr b1
      have "root_loop child R b ms bm bv = (Inr r, b')"
        by (simp add: pop_push)
      then show ?thesis
        by (rule Cons.IH) (use Cons.prems(2) in auto)
    qed
  qed
qed

lemma find_best_move_restores:
  "find_best_move frames R b depth = (Inr r, b') \<Longrightarrow> b' = b"
  unfolding find_best_move_def
  by (erule root_loop_restores) (rule minimax_restores)

lemma generate_hint_restores: "snd (generate_hint R b bm level) = b"
  by (simp add: generate_hint_def Let_def pop_push split: option.splits)

lemma dict_get_piece_values: "dict_get piece_values t 0 = spec_value t"
  by (cases t) (simp_all add: dict_get_def piece_values_def)

lemma piece_term_spec:
  "piece_term pc = spec_value (piece_type pc) * (if color pc = WHITE then 1 else - 1)"
  by (simp add: piece_term_def dict_get_piece_values)

lemma sum_list_drop_zero:
  "(\<And>x. x \<in> set xs \<Longrightarrow> \<not> P x \<Longrightarrow> f x = (0::int)) \<Longrightarrow>
   sum_list (map f (filter P xs)) = sum_list (map f xs)"
  by (induction xs) auto

lemma piece_term_swap: "piece_term (swap_color pc) = - piece_term pc"
  by (simp add: piece_term_def swap_color_def WHITE_def)

lemma sum_list_piece_term_mset:
  "sum_list (map piece_term xs) = sum_mset (image_mset piece_term (mset xs))"
  by (induction xs) simp_all

lemma sum_mset_swap:
  "sum_mset (image_mset piece_term (image_mset swap_color M)) = - sum_mset (image_mset piece_term M)"
  by (induction M) (simp_all add: piece_term_swap)

section \<open>The evaluator\<close>

text \<open>
  C2. At a terminal position (\<^verbatim>\<open>is_game_over\<close>) \<^verbatim>\<open>evaluate_board\<close> returns exactly
  10000 when the result is a White win (\<^verbatim>\<open>"1-0"\<close>), exactly -10000 when it is a Black
  win (\<^verbatim>\<open>"0-1"\<close>) and 0 for every other result, the draws; the pieces on the board play
  no part in it, so the terminal test comes before the material count.
\<close>

theorem evaluate_board_terminal:
  assumes "is_game_over R (cur b)"
  shows "(result R (cur b) = ''1-0'' \<longrightarrow> evaluate_board R b = 10000) \<and>
         (result R (cur b) = ''0-1'' \<longrightarrow> evaluate_board R b = - 10000) \<and>
         (result R (cur b) \<noteq> ''1-0'' \<and> result R (cur b) \<noteq> ''0-1'' \<longrightarrow> evaluate_board R b = 0)"
  using assms by (simp add: evaluate_board_def)

theorem evaluate_board_terminal_witness:
  "is_game_over tree_rules (cur (at_position 7)) \<and> result tree_rules (cur (at_position 7)) = ''1-0'' \<and>
   evaluate_board tree_rules (at_position 7) = 10000 \<and>
   is_game_over tree_rules (cur (at_position 5)) \<and> result tree_rules (cur (at_position 5)) = ''0-1'' \<and>
   evaluate_board tree_rules (at_position 5) = - 10000 \<and>
   is_game_over tree_rules (cur (at_position 3)) \<and> result tree_rules (cur (at_position 3)) = ''1/2-1/2'' \<and>
   evaluate_board tree_rules (at_position 3) = 0"
proof -
  have h7: "is_game_over tree_rules (cur (at_position 7))"
    and h5: "is_game_over tree_rules (cur (at_position 5))"
    and h3: "is_game_over tree_rules (cur (at_position 3))"
    by code_simp+
  have r7: "result tree_rules (cur (at_position 7)) = ''1-0''"
    and r5: "result tree_rules (cur (at_position 5)) = ''0-1''"
    and r3: "result tree_rules (cur (at_position 3)) = ''1/2-1/2''"
    by code_simp+
  from evaluate_board_terminal [OF h7] r7
  have e7: "evaluate_board tree_rules (at_position 7) = 10000" by simp
  from evaluate_board_terminal [OF h5] r5
  have e5: "evaluate_board tree_rules (at_position 5) = - 10000" by simp
  from evaluate_board_terminal [OF h3] r3
  have e3: "evaluate_board tree_rules (at_position 3) = 0" by simp
  from h7 h5 h3 r7 r5 r3 e7 e5 e3 show ?thesis by blast
qed

text \<open>
  C8. At a position that is not terminal \<^verbatim>\<open>evaluate_board\<close> is the sum, over every
  piece on the board, of the piece's value in the table pawn 1, knight 3, bishop 3, rook 5,
  queen 9, king 0, counted positively for White and negatively for Black; the kings
  contribute nothing (leaving them out gives the same sum), and no square enters the sum.
\<close>

theorem evaluate_board_material:
  assumes "\<not> is_game_over R (cur b)"
  shows "evaluate_board R b =
           sum_list (map (\<lambda>pc. spec_value (piece_type pc) * (if color pc = WHITE then 1 else - 1))
                         (map snd (piece_map R (cur b)))) \<and>
         evaluate_board R b =
           sum_list (map (\<lambda>pc. spec_value (piece_type pc) * (if color pc = WHITE then 1 else - 1))
                         (filter (\<lambda>pc. piece_type pc \<noteq> KING) (map snd (piece_map R (cur b)))))"
proof -
  let ?f = "\<lambda>pc. spec_value (piece_type pc) * (if color pc = WHITE then 1 else - 1)"
  have f: "piece_term = ?f"
    by (rule ext) (rule piece_term_spec)
  have 1: "evaluate_board R b = sum_list (map ?f (map snd (piece_map R (cur b))))"
    using assms by (simp add: evaluate_board_def f)
  have "sum_list (map ?f (filter (\<lambda>pc. piece_type pc \<noteq> KING) (map snd (piece_map R (cur b))))) =
        sum_list (map ?f (map snd (piece_map R (cur b))))"
    by (rule sum_list_drop_zero) simp
  with 1 show ?thesis by simp
qed

theorem evaluate_board_material_witness:
  "\<not> is_game_over tree_rules (cur (at_position 1)) \<and> evaluate_board tree_rules (at_position 1) = 5"
proof -
  have h: "\<not> is_game_over tree_rules (cur (at_position 1))" by code_simp
  have "sum_list (map (\<lambda>pc. spec_value (piece_type pc) * (if color pc = WHITE then 1 else - 1))
                         (map snd (piece_map tree_rules (cur (at_position 1))))) = 5"
    by code_simp
  with h evaluate_board_material [OF h] show ?thesis by simp
qed

text \<open>
  C9. A position and its colour-mirrored counterpart evaluate to negated scores.
\<close>

theorem evaluate_board_mirrored:
  assumes "mirrored R (cur b) (cur b')"
  shows "evaluate_board R b' = - evaluate_board R b"
proof (cases "is_game_over R (cur b)")
  case True
  with assms show ?thesis
    by (auto simp: mirrored_def evaluate_board_def swap_result_def)
next
  case False
  from assms have m: "mset (map snd (piece_map R (cur b'))) =
      image_mset swap_color (mset (map snd (piece_map R (cur b))))"
    and g: "is_game_over R (cur b') = is_game_over R (cur b)"
    by (simp_all add: mirrored_def)
  have "sum_list (map piece_term (map snd (piece_map R (cur b')))) =
        - sum_list (map piece_term (map snd (piece_map R (cur b))))"
    unfolding sum_list_piece_term_mset m by (rule sum_mset_swap)
  with False g show ?thesis
    by (simp add: evaluate_board_def)
qed

theorem evaluate_board_mirrored_witness:
  "mirrored tree_rules (cur (at_position 1)) (cur (at_position 2)) \<and>
   evaluate_board tree_rules (at_position 2) = - evaluate_board tree_rules (at_position 1)"
proof -
  have h: "mirrored tree_rules (cur (at_position 1)) (cur (at_position 2))"
    by (simp add: mirrored_def tree_rules_def at_position_def tree_pieces_def swap_result_def
        swap_color_def WHITE_def BLACK_def)
  show ?thesis using h evaluate_board_mirrored [OF h] by simp
qed

section \<open>The hint generator\<close>

text \<open>
  C10. For a move and any level other than 1 and 2 (0, negative numbers and numbers
  above 3 included) \<^verbatim>\<open>generate_hint\<close> returns the full tier-3 text, the same as for
  level 3, and rejects nothing.
\<close>

theorem generate_hint_other_levels:
  assumes "level \<noteq> 1" and "level \<noteq> 2"
  shows "generate_hint R b (Some mv) level =
           (Inr (''Solution: '' @ san R (cur b) mv @ '' ('' @ uci R mv @ ''). '' @
                 (if outcome_and_winner (outcome R (make_move R (cur b) mv)) then ''Mate!''
                  else ''Winning line!'')), b) \<and>
         generate_hint R b (Some mv) level = generate_hint R b (Some mv) 3"
  using assms by (simp add: generate_hint_def Let_def pop_push cur_push)

theorem generate_hint_other_levels_witness:
  "(7::int) \<noteq> 1 \<and> (7::int) \<noteq> 2 \<and>
   generate_hint tree_rules (at_position 2) (Some 2) 7 =
     generate_hint tree_rules (at_position 2) (Some 2) 3"
proof -
  have a: "(7::int) \<noteq> 1" and b: "(7::int) \<noteq> 2"
    by simp_all
  from generate_hint_other_levels [OF a b, of tree_rules "at_position 2" 2]
  have "generate_hint tree_rules (at_position 2) (Some 2) 7 =
        generate_hint tree_rules (at_position 2) (Some 2) 3"
    by (rule conjunct2)
  with a b show ?thesis by blast
qed

text \<open>
  C6, evaluated where Black delivers the mate. At position 2 Black's move 1 leads to
  position 5, whose outcome has Black as the winner; the tier-3 text nevertheless ends in
  \<^verbatim>\<open>Winning line!\<close>, because \<^verbatim>\<open>outcome.winner\<close> is \<^verbatim>\<open>chess.BLACK\<close>, that is
  \<^verbatim>\<open>False\<close>.
\<close>

theorem tier3_black_mate:
  "outcome tree_rules (make_move tree_rules (cur (at_position 2)) 1) = Some \<lparr>winner = Some BLACK\<rparr> \<and>
   generate_hint tree_rules (at_position 2) (Some 1) 3 =
     (Inr ''Solution: Kd7 (e8d7). Winning line!'', at_position 2)"
  by code_simp

text \<open>
  C7. Every operation hands the board back as it received it. \<^verbatim>\<open>generate_hint\<close> does
  so at every level and on every exit, the \<^verbatim>\<open>AttributeError\<close> ones included; at tier 3
  the outcome it reports is the one of the position after the single trial move, and the
  board it returns is the original one. \<^verbatim>\<open>minimax\<close> and \<^verbatim>\<open>find_best_move\<close>
  return the board unchanged whenever they return a value, for every window, hence also
  when a loop is left by the pruning \<^verbatim>\<open>break\<close>.
\<close>

theorem position_restored:
  "snd (generate_hint R b best_move level) = b \<and>
   generate_hint R b (Some mv) 3 =
     (Inr (''Solution: '' @ san R (cur b) mv @ '' ('' @ uci R mv @ ''). '' @
           (if outcome_and_winner (outcome R (cur (push R b mv))) then ''Mate!''
            else ''Winning line!'')), b) \<and>
   (fst (minimax frames R b depth alpha beta maximizing) = Inr v \<longrightarrow>
      snd (minimax frames R b depth alpha beta maximizing) = b) \<and>
   (fst (find_best_move frames R b depth) = Inr best \<longrightarrow>
      snd (find_best_move frames R b depth) = b)"
proof -
  have 1: "snd (generate_hint R b best_move level) = b"
    by (rule generate_hint_restores)
  have 2: "generate_hint R b (Some mv) 3 =
     (Inr (''Solution: '' @ san R (cur b) mv @ '' ('' @ uci R mv @ ''). '' @
           (if outcome_and_winner (outcome R (cur (push R b mv))) then ''Mate!''
            else ''Winning line!'')), b)"
    by (simp add: generate_hint_def Let_def pop_push)
  have 3: "snd (minimax frames R b depth alpha beta maximizing) = b"
    if "fst (minimax frames R b depth alpha beta maximizing) = Inr v"
    using that minimax_restores [of frames R b depth alpha beta maximizing v]
    by (cases "minimax frames R b depth alpha beta maximizing") simp
  have 4: "snd (find_best_move frames R b depth) = b"
    if "fst (find_best_move frames R b depth) = Inr best"
    using that find_best_move_restores [of frames R b depth best]
    by (cases "find_best_move frames R b depth") simp
  from 1 2 3 4 show ?thesis by blast
qed

theorem position_restored_witness:
  "fst (minimax 5 tree_rules (at_position 0) 2 NegInf PosInf True) = Inr (Fin 0) \<and>
   snd (minimax 5 tree_rules (at_position 0) 2 NegInf PosInf True) = at_position 0 \<and>
   fst (find_best_move 5 tree_rules (at_position 0) 2) = Inr (Some 1) \<and>
   snd (find_best_move 5 tree_rules (at_position 0) 2) = at_position 0"
proof -
  have m: "fst (minimax 5 tree_rules (at_position 0) 2 NegInf PosInf True) = Inr (Fin 0)"
    by code_simp
  have f: "fst (find_best_move 5 tree_rules (at_position 0) 2) = Inr (Some 1)"
    by code_simp
  from m f position_restored [of tree_rules "at_position 0" None 3 1 5 2 NegInf PosInf True
      "Fin 0" "Some 1"]
  show ?thesis by blast
qed

section \<open>The root search\<close>

text \<open>
  C4, as the code has it: at a position without legal moves \<^verbatim>\<open>find_best_move\<close> runs
  its loop over no move at all and returns the initial \<^verbatim>\<open>None\<close>; it raises nothing.
\<close>

theorem find_best_move_no_moves:
  assumes "legal_moves R (cur b) = []"
  shows "find_best_move frames R b depth = (Inr None, b)"
  using assms by (simp add: find_best_move_def)

theorem find_best_move_no_moves_witness:
  "legal_moves tree_rules (cur (at_position 3)) = [] \<and>
   find_best_move 5 tree_rules (at_position 3) 4 = (Inr None, at_position 3)"
proof -
  have h: "legal_moves tree_rules (cur (at_position 3)) = []" by code_simp
  show ?thesis using h find_best_move_no_moves [OF h] by simp
qed

text \<open>
  C4 as stated fails: position 3 has no legal move, and the call returns \<^verbatim>\<open>None\<close>
  where the claim wants an error.
\<close>

theorem find_best_move_no_moves_counterexample:
  "find_best_move 5 tree_rules (at_position 3) 4 = (Inr None, at_position 3)"
  by code_simp

section \<open>Pruning does not change the value\<close>

subsection \<open>One loop step, as a fact about the order of scores\<close>

lemma window_step_max:
  assumes Ma: "M \<le> a" and abe: "a < be" and nc: "\<not> be \<le> max a e" and r: "max M e \<le> r"
    and e: "window_exact a be e ve"
    and ih: "window_exact (max a e) be r (max (max M e) rest)"
  shows "window_exact a be r (max (max M ve) rest)"
proof (cases "e \<le> a")
  case True
  with e have ve: "ve \<le> e" by (simp add: window_exact_def)
  from True have m: "max a e = a" by simp
  from True Ma have Me: "max M e \<le> a" by simp
  from ve True Ma have Mv: "max M ve \<le> a" by simp
  have le: "max (max M ve) rest \<le> max (max M e) rest"
    by (rule max.mono [OF max.mono [OF order_refl ve] order_refl])
  from ih have ih': "window_exact a be r (max (max M e) rest)" by (simp only: m)
  have 1: "max (max M ve) rest \<le> r" if "r \<le> a"
  proof -
    from that ih' have "max (max M e) rest \<le> r" by (simp only: window_exact_def)
    with le show ?thesis by (rule order_trans)
  qed
  have 2: "r = max (max M ve) rest" if "a < r" "r < be"
  proof -
    from that ih' have eq: "r = max (max M e) rest" by (simp add: window_exact_def)
    with that Me have "max (max M e) rest = rest" by (auto simp: max_def split: if_splits)
    moreover from eq this that Mv have "max (max M ve) rest = rest" by (auto simp: max_def split: if_splits)
    ultimately show ?thesis using eq by simp
  qed
  have 3: "r \<le> max (max M ve) rest" if "be \<le> r"
  proof -
    from abe that have "a < r" by (rule less_le_trans)
    with Me have "max M e < r" by (rule le_less_trans)
    then have "\<not> r \<le> max M e" by (simp only: not_le)
    moreover from that ih' have "r \<le> max (max M e) rest" by (simp add: window_exact_def)
    ultimately have "r \<le> rest" by (simp add: le_max_iff_disj)
    then show ?thesis by (simp add: le_max_iff_disj)
  qed
  from 1 2 3 show ?thesis unfolding window_exact_def by blast
next
  case False
  then have ae: "a < e" by simp
  then have m: "max a e = e" by simp
  with nc have ebe: "e < be" by simp
  from e ae ebe have ve: "ve = e" by (simp add: window_exact_def)
  from Ma ae have Me: "max M e = e" by simp
  from r Me have er: "e \<le> r" by simp
  from ih have ih': "window_exact e be r (max e rest)" by (simp only: m Me)
  have 2: "r = max e rest" if "r < be"
  proof (cases "r \<le> e")
    case True
    with ih' have "max e rest \<le> r" by (simp add: window_exact_def)
    moreover from True er have "r = e" by simp
    ultimately show ?thesis by (auto simp: max_def split: if_splits)
  next
    case F: False
    with that ih' show ?thesis by (simp add: window_exact_def)
  qed
  have 3: "r \<le> max e rest" if "be \<le> r"
    using that ih' by (simp add: window_exact_def)
  from 2 3 er ae show ?thesis unfolding window_exact_def ve Me by auto
qed


lemma window_cut_max:
  assumes Ma: "M \<le> a" and abe: "a < be" and c: "be \<le> max a e" and e: "window_exact a be e ve"
  shows "window_exact a be (max M e) (max (max M ve) rest)"
proof -
  from abe c have be_e: "be \<le> e" by (auto simp: max_def split: if_splits)
  with abe have ae: "a < e" by (rule less_le_trans)
  with Ma have Me: "max M e = e" by simp
  from e be_e have "e \<le> ve" by (simp only: window_exact_def)
  then have "e \<le> max (max M ve) rest" by (simp add: le_max_iff_disj)
  with ae be_e show ?thesis unfolding window_exact_def Me by auto
qed

lemma window_step_min:
  assumes Ma: "be \<le> M" and abe: "a < be" and nc: "\<not> min be e \<le> a" and r: "r \<le> min M e"
    and e: "window_exact a be e ve"
    and ih: "window_exact a (min be e) r (min (min M e) rest)"
  shows "window_exact a be r (min (min M ve) rest)"
proof (cases "be \<le> e")
  case True
  with e have ve: "e \<le> ve" by (simp add: window_exact_def)
  from True have m: "min be e = be" by simp
  from True Ma have Me: "be \<le> min M e" by simp
  from ve True Ma have Mv: "be \<le> min M ve" by simp
  have le: "min (min M e) rest \<le> min (min M ve) rest"
    by (rule min.mono [OF min.mono [OF order_refl ve] order_refl])
  from ih have ih': "window_exact a be r (min (min M e) rest)" by (simp only: m)
  have 1: "r \<le> min (min M ve) rest" if "be \<le> r"
  proof -
    from that ih' have "r \<le> min (min M e) rest" by (simp only: window_exact_def)
    then show ?thesis using le by (rule order_trans)
  qed
  have 2: "r = min (min M ve) rest" if "a < r" "r < be"
  proof -
    from that ih' have eq: "r = min (min M e) rest" by (simp add: window_exact_def)
    with that Me have "min (min M e) rest = rest" by (auto simp: min_def split: if_splits)
    moreover from eq this that Mv have "min (min M ve) rest = rest" by (auto simp: min_def split: if_splits)
    ultimately show ?thesis using eq by simp
  qed
  have 3: "min (min M ve) rest \<le> r" if "r \<le> a"
  proof -
    from that abe have "r < be" by (rule le_less_trans)
    then have "r < min M e" using Me by (rule less_le_trans)
    then have "\<not> min M e \<le> r" by (simp only: not_le)
    moreover from that ih' have "min (min M e) rest \<le> r" by (simp add: window_exact_def)
    ultimately have "rest \<le> r" by (simp add: min_le_iff_disj)
    then show ?thesis by (simp add: min_le_iff_disj)
  qed
  from 1 2 3 show ?thesis unfolding window_exact_def by blast
next
  case False
  then have ebe: "e < be" by simp
  then have m: "min be e = e" by simp
  with nc have ae: "a < e" by simp
  from e ae ebe have ve: "ve = e" by (simp add: window_exact_def)
  from Ma ebe have Me: "min M e = e" by simp
  from r Me have er: "r \<le> e" by simp
  from ih have ih': "window_exact a e r (min e rest)" by (simp only: m Me)
  have 2: "r = min e rest" if "a < r"
  proof (cases "e \<le> r")
    case True
    with ih' have "r \<le> min e rest" unfolding window_exact_def by blast
    moreover from True er have "r = e" by simp
    ultimately show ?thesis by (auto simp: min_def split: if_splits)
  next
    case F: False
    with that ih' show ?thesis by (simp add: window_exact_def)
  qed
  have 3: "min e rest \<le> r" if "r \<le> a"
    using that ih' by (simp add: window_exact_def)
  from 2 3 er ebe show ?thesis unfolding window_exact_def ve Me by auto
qed

lemma window_cut_min:
  assumes Ma: "be \<le> M" and abe: "a < be" and c: "min be e \<le> a" and e: "window_exact a be e ve"
  shows "window_exact a be (min M e) (min (min M ve) rest)"
proof -
  from abe c have e_a: "e \<le> a" by (auto simp: min_def split: if_splits)
  then have ebe: "e < be" using abe by (rule le_less_trans)
  with Ma have Me: "min M e = e" by simp
  from e e_a have "ve \<le> e" by (simp only: window_exact_def)
  then have "min (min M ve) rest \<le> e" by (simp add: min_le_iff_disj)
  with ebe e_a show ?thesis unfolding window_exact_def Me by auto
qed

lemma window_full:
  assumes "window_exact lo hi r v" "\<And>x. lo \<le> x" "\<And>x. x \<le> hi"
  shows "r = v"
proof -
  have "r \<le> lo \<or> (lo < r \<and> r < hi) \<or> hi \<le> r" by auto
  with assms show ?thesis
    unfolding window_exact_def by (metis order_antisym)
qed



lemma max_loop_values:
  assumes "\<And>m a be. m \<in> set ms \<Longrightarrow> child (push R b m) a be = (Inr (pc m a be), push R b m)"
  shows "max_loop child R b ms M a be = (Inr (ab_max_loop pc ms M a be), b)"
  using assms
  by (induction ms arbitrary: M a) (simp_all add: pop_push Let_def)

lemma min_loop_values:
  assumes "\<And>m a be. m \<in> set ms \<Longrightarrow> child (push R b m) a be = (Inr (pc m a be), push R b m)"
  shows "min_loop child R b ms M a be = (Inr (ab_min_loop pc ms M a be), b)"
  using assms
  by (induction ms arbitrary: M be) (simp_all add: pop_push Let_def)

lemma minimax_alphabeta:
  "d < frames \<Longrightarrow> minimax frames R b (int d) a be mx = (Inr (alphabeta R d b a be mx), b)"
proof (induction d arbitrary: frames b a be mx)
  case 0
  then obtain f where "frames = Suc f" by (cases frames) auto
  then show ?case by simp
next
  case (Suc d)
  then obtain f where f: "frames = Suc f" and df: "d < f" by (cases frames) auto
  have ch: "minimax f R b' (int (Suc d) - 1) a' be' mx' = (Inr (alphabeta R d b' a' be' mx'), b')"
    for b' a' be' mx'
    using Suc.IH [OF df, of b' a' be' mx'] by simp
  show ?case
  proof (cases "is_game_over R (cur b)")
    case True
    then show ?thesis by (simp add: f)
  next
    case False
    show ?thesis
    proof (cases mx)
      case True
      have "max_loop (\<lambda>b' a' be'. minimax f R b' (int (Suc d) - 1) a' be' False) R b
              (legal_moves R (cur b)) NegInf a be =
            (Inr (ab_max_loop (\<lambda>m a' be'. alphabeta R d (push R b m) a' be' False)
                    (legal_moves R (cur b)) NegInf a be), b)"
        by (rule max_loop_values) (rule ch)
      with False True show ?thesis by (simp add: f)
    next
      case mxF: False
      have "min_loop (\<lambda>b' a' be'. minimax f R b' (int (Suc d) - 1) a' be' True) R b
              (legal_moves R (cur b)) PosInf a be =
            (Inr (ab_min_loop (\<lambda>m a' be'. alphabeta R d (push R b m) a' be' True)
                    (legal_moves R (cur b)) PosInf a be), b)"
        by (rule min_loop_values) (rule ch)
      with False mxF show ?thesis by (simp add: f)
    qed
  qed
qed

lemma foldl_max_start: "foldl max M xs = max M (foldl max NegInf xs)"
proof (induction xs arbitrary: M)
  case Nil
  show ?case by (cases M) simp_all
next
  case (Cons x xs)
  have "foldl max (max M x) xs = max (max M x) (foldl max NegInf xs)"
    by (rule Cons.IH)
  moreover have "foldl max (max NegInf x) xs = max (max NegInf x) (foldl max NegInf xs)"
    by (rule Cons.IH)
  moreover have "max NegInf x = x" by (cases x) simp_all
  ultimately show ?case by (simp add: max.assoc)
qed

lemma foldl_min_start: "foldl min M xs = min M (foldl min PosInf xs)"
proof (induction xs arbitrary: M)
  case Nil
  show ?case by (cases M) simp_all
next
  case (Cons x xs)
  have "foldl min (min M x) xs = min (min M x) (foldl min PosInf xs)"
    by (rule Cons.IH)
  moreover have "foldl min (min PosInf x) xs = min (min PosInf x) (foldl min PosInf xs)"
    by (rule Cons.IH)
  moreover have "min PosInf x = x" by (cases x) simp_all
  ultimately show ?case by (simp add: min.assoc)
qed

lemma ab_max_loop_ge: "M \<le> ab_max_loop pc ms M a be"
proof (induction ms arbitrary: M a)
  case Nil
  show ?case by simp
next
  case (Cons m ms)
  have "max M (pc m a be) \<le> ab_max_loop pc ms (max M (pc m a be)) (max a (pc m a be)) be"
    by (rule Cons.IH)
  then show ?case by (auto simp: Let_def)
qed

lemma ab_min_loop_le: "ab_min_loop pc ms M a be \<le> M"
proof (induction ms arbitrary: M be)
  case Nil
  show ?case by simp
next
  case (Cons m ms)
  have "ab_min_loop pc ms (min M (pc m a be)) a (min be (pc m a be)) \<le> min M (pc m a be)"
    by (rule Cons.IH)
  then show ?case by (auto simp: Let_def)
qed


lemma ab_max_loop_window:
  assumes ch: "\<And>m a be. m \<in> set ms \<Longrightarrow> a < be \<Longrightarrow> window_exact a be (pc m a be) (ve m)"
    and Ma: "M \<le> a" and abe: "a < be"
  shows "window_exact a be (ab_max_loop pc ms M a be) (foldl max M (map ve ms))"
  using assms
proof (induction ms arbitrary: M a)
  case Nil
  then show ?case by (simp add: window_exact_def)
next
  case (Cons m ms)
  let ?e = "pc m a be"
  have e: "window_exact a be ?e (ve m)"
    by (rule Cons.prems(1)) (simp, rule Cons.prems(3))
  have v: "foldl max M (map ve (m # ms)) = max (max M (ve m)) (foldl max NegInf (map ve ms))"
    by (simp add: foldl_max_start [of "max M (ve m)"])
  show ?case
  proof (cases "be \<le> max a ?e")
    case True
    have "window_exact a be (max M ?e) (max (max M (ve m)) (foldl max NegInf (map ve ms)))"
      using Cons.prems(2,3) True e by (rule window_cut_max)
    with True show ?thesis by (simp only: v) (simp add: Let_def)
  next
    case False
    let ?r = "ab_max_loop pc ms (max M ?e) (max a ?e) be"
    have ih: "window_exact (max a ?e) be ?r (foldl max (max M ?e) (map ve ms))"
    proof (rule Cons.IH)
      show "max M ?e \<le> max a ?e" using Cons.prems(2) by (rule max.mono) (rule order_refl)
      show "max a ?e < be" using False by (simp only: not_le)
      show "window_exact a' be' (pc m' a' be') (ve m')" if "m' \<in> set ms" "a' < be'" for m' a' be'
        using that by (intro Cons.prems(1)) simp_all
    qed
    then have ih': "window_exact (max a ?e) be ?r (max (max M ?e) (foldl max NegInf (map ve ms)))"
      by (simp only: foldl_max_start [of "max M ?e"])
    have "window_exact a be ?r (max (max M (ve m)) (foldl max NegInf (map ve ms)))"
      using Cons.prems(2,3) False ab_max_loop_ge e ih' by (rule window_step_max)
    with False show ?thesis by (simp only: v) (simp add: Let_def)
  qed
qed

lemma ab_min_loop_window:
  assumes ch: "\<And>m a be. m \<in> set ms \<Longrightarrow> a < be \<Longrightarrow> window_exact a be (pc m a be) (ve m)"
    and Ma: "be \<le> M" and abe: "a < be"
  shows "window_exact a be (ab_min_loop pc ms M a be) (foldl min M (map ve ms))"
  using assms
proof (induction ms arbitrary: M be)
  case Nil
  then show ?case by (simp add: window_exact_def)
next
  case (Cons m ms)
  let ?e = "pc m a be"
  have e: "window_exact a be ?e (ve m)"
    by (rule Cons.prems(1)) (simp, rule Cons.prems(3))
  have v: "foldl min M (map ve (m # ms)) = min (min M (ve m)) (foldl min PosInf (map ve ms))"
    by (simp add: foldl_min_start [of "min M (ve m)"])
  show ?case
  proof (cases "min be ?e \<le> a")
    case True
    have "window_exact a be (min M ?e) (min (min M (ve m)) (foldl min PosInf (map ve ms)))"
      using Cons.prems(2,3) True e by (rule window_cut_min)
    with True show ?thesis by (simp only: v) (simp add: Let_def)
  next
    case False
    let ?r = "ab_min_loop pc ms (min M ?e) a (min be ?e)"
    have ih: "window_exact a (min be ?e) ?r (foldl min (min M ?e) (map ve ms))"
    proof (rule Cons.IH)
      show "min be ?e \<le> min M ?e" using Cons.prems(2) by (rule min.mono) (rule order_refl)
      show "a < min be ?e" using False by (simp only: not_le)
      show "window_exact a' be' (pc m' a' be') (ve m')" if "m' \<in> set ms" "a' < be'" for m' a' be'
        using that by (intro Cons.prems(1)) simp_all
    qed
    then have ih': "window_exact a (min be ?e) ?r (min (min M ?e) (foldl min PosInf (map ve ms)))"
      by (simp only: foldl_min_start [of "min M ?e"])
    have "window_exact a be ?r (min (min M (ve m)) (foldl min PosInf (map ve ms)))"
      using Cons.prems(2,3) False ab_min_loop_le e ih' by (rule window_step_min)
    with False show ?thesis by (simp only: v) (simp add: Let_def)
  qed
qed

lemma alphabeta_window:
  "a < be \<Longrightarrow> window_exact a be (alphabeta R d b a be mx) (minimax_exhaustive R d b mx)"
proof (induction d arbitrary: b a be mx)
  case 0
  then show ?case by (simp add: window_exact_def)
next
  case (Suc d)
  show ?case
  proof (cases "is_game_over R (cur b)")
    case True
    then show ?thesis by (simp add: window_exact_def)
  next
    case False
    show ?thesis
    proof (cases mx)
      case True
      have "window_exact a be
              (ab_max_loop (\<lambda>m a' be'. alphabeta R d (push R b m) a' be' False)
                 (legal_moves R (cur b)) NegInf a be)
              (foldl max NegInf (map (\<lambda>m. minimax_exhaustive R d (push R b m) False)
                 (legal_moves R (cur b))))"
      proof (rule ab_max_loop_window)
        show "NegInf \<le> a" by simp
        show "a < be" by (rule Suc.prems)
      qed (rule Suc.IH)
      with False True show ?thesis by simp
    next
      case mxF: False
      have "window_exact a be
              (ab_min_loop (\<lambda>m a' be'. alphabeta R d (push R b m) a' be' True)
                 (legal_moves R (cur b)) PosInf a be)
              (foldl min PosInf (map (\<lambda>m. minimax_exhaustive R d (push R b m) True)
                 (legal_moves R (cur b))))"
      proof (rule ab_min_loop_window)
        show "be \<le> PosInf" by (cases be) simp_all
        show "a < be" by (rule Suc.prems)
      qed (rule Suc.IH)
      with False mxF show ?thesis by simp
    qed
  qed
qed

lemma alphabeta_full_window:
  "alphabeta R d b NegInf PosInf mx = minimax_exhaustive R d b mx"
proof -
  have "window_exact NegInf PosInf (alphabeta R d b NegInf PosInf mx) (minimax_exhaustive R d b mx)"
    by (rule alphabeta_window) (simp add: less_score_def)
  moreover have "NegInf \<le> x" for x :: score by simp
  moreover have "x \<le> PosInf" for x :: score by (cases x) simp_all
  ultimately show ?thesis by (rule window_full)
qed

subsection \<open>The root loop and the scores it sees\<close>

lemma root_loop_values:
  assumes "\<And>m. m \<in> set ms \<Longrightarrow> child (push R b m) = (Inr (sc m), push R b m)"
  shows "root_loop child R b ms bm bv = (Inr (first_best (map (\<lambda>m. (m, sc m)) ms) bm bv), b)"
  using assms
  by (induction ms arbitrary: bm bv) (simp_all add: pop_push)

lemma find_best_move_values:
  assumes "1 \<le> d" and "d \<le> frames"
  shows "find_best_move frames R b (int d) = (Inr (find_best_move_exhaustive R d b), b)"
proof -
  from assms have lt: "d - 1 < frames" by simp
  from assms have i: "int d - 1 = int (d - 1)" by simp
  have ch: "minimax frames R (push R b m) (int d - 1) NegInf PosInf False =
            (Inr (minimax_exhaustive R (d - 1) (push R b m) False), push R b m)" for m
    using minimax_alphabeta [OF lt, of R "push R b m" NegInf PosInf False]
    by (simp only: i alphabeta_full_window)
  show ?thesis
    unfolding find_best_move_def find_best_move_exhaustive_def
    by (rule root_loop_values) (rule ch)
qed

lemma foldl_max_mem: "foldl max M xs \<in> insert M (set xs)"
proof (induction xs arbitrary: M)
  case Nil
  show ?case by simp
next
  case (Cons x xs)
  have "foldl max (max M x) xs \<in> insert (max M x) (set xs)" by (rule Cons.IH)
  moreover have "max M x = M \<or> max M x = x" by (simp add: max_def)
  ultimately show ?case by auto
qed

lemma foldl_min_mem: "foldl min M xs \<in> insert M (set xs)"
proof (induction xs arbitrary: M)
  case Nil
  show ?case by simp
next
  case (Cons x xs)
  have "foldl min (min M x) xs \<in> insert (min M x) (set xs)" by (rule Cons.IH)
  moreover have "min M x = M \<or> min M x = x" by (simp add: min_def)
  ultimately show ?case by auto
qed

lemma foldl_max_nonempty: "xs \<noteq> [] \<Longrightarrow> foldl max NegInf xs \<in> set xs"
proof (cases xs)
  case Nil
  assume "xs \<noteq> []"
  with Nil show ?thesis by simp
next
  case (Cons x xs')
  have "max NegInf x = x" by (cases x) simp_all
  with foldl_max_mem [of x xs'] Cons show ?thesis by simp
qed

lemma foldl_min_nonempty: "xs \<noteq> [] \<Longrightarrow> foldl min PosInf xs \<in> set xs"
proof (cases xs)
  case Nil
  assume "xs \<noteq> []"
  with Nil show ?thesis by simp
next
  case (Cons x xs')
  have "min PosInf x = x" by (cases x) simp_all
  with foldl_min_mem [of x xs'] Cons show ?thesis by simp
qed

lemma minimax_exhaustive_finite:
  assumes "no_moves_terminal R"
  shows "\<exists>i. minimax_exhaustive R d b mx = Fin i"
proof (induction d arbitrary: b mx)
  case 0
  show ?case by simp
next
  case (Suc d)
  show ?case
  proof (cases "is_game_over R (cur b)")
    case True
    then show ?thesis by simp
  next
    case False
    with assms have ne: "legal_moves R (cur b) \<noteq> []"
      by (auto simp: no_moves_terminal_def)
    show ?thesis
    proof (cases mx)
      case True
      let ?vs = "map (\<lambda>m. minimax_exhaustive R d (push R b m) False) (legal_moves R (cur b))"
      from ne have "foldl max NegInf ?vs \<in> set ?vs" by (intro foldl_max_nonempty) simp
      then obtain m where "foldl max NegInf ?vs = minimax_exhaustive R d (push R b m) False" by auto
      with Suc.IH [of "push R b m" False] False True show ?thesis by simp
    next
      case mxF: False
      let ?vs = "map (\<lambda>m. minimax_exhaustive R d (push R b m) True) (legal_moves R (cur b))"
      from ne have "foldl min PosInf ?vs \<in> set ?vs" by (intro foldl_min_nonempty) simp
      then obtain m where "foldl min PosInf ?vs = minimax_exhaustive R d (push R b m) True" by auto
      with Suc.IH [of "push R b m" True] False mxF show ?thesis by simp
    qed
  qed
qed

lemma first_best_none_better:
  "\<forall>x\<in>set xs. snd x \<le> bv \<Longrightarrow> first_best xs bm bv = bm"
  by (induction xs bm bv rule: first_best.induct) auto

lemma first_best_first_maximum:
  assumes "\<exists>x\<in>set xs. bv < snd x"
  shows "\<exists>i<length xs. first_best xs bm bv = Some (fst (xs ! i)) \<and> bv < snd (xs ! i) \<and>
           (\<forall>j<i. snd (xs ! j) < snd (xs ! i)) \<and> (\<forall>j<length xs. snd (xs ! j) \<le> snd (xs ! i))"
  using assms
proof (induction xs bm bv rule: first_best.induct)
  case (1 bm bv)
  then show ?case by simp
next
  case (2 m v rest bm bv)
  show ?case
  proof (cases "bv < v")
    case True
    show ?thesis
    proof (cases "\<exists>x\<in>set rest. v < snd x")
      case ex: True
      from "2.IH"(1) [OF True ex] obtain i where i: "i < length rest"
        and r: "first_best rest (Some m) v = Some (fst (rest ! i))"
        and gt: "v < snd (rest ! i)"
        and before: "\<forall>j<i. snd (rest ! j) < snd (rest ! i)"
        and all: "\<forall>j<length rest. snd (rest ! j) \<le> snd (rest ! i)" by blast
      have "Suc i < length ((m, v) # rest)" using i by simp
      moreover have "first_best ((m, v) # rest) bm bv = Some (fst (((m, v) # rest) ! Suc i))"
        using True r by simp
      moreover have "bv < snd (((m, v) # rest) ! Suc i)" using True gt by simp
      moreover have "\<forall>j<Suc i. snd (((m, v) # rest) ! j) < snd (((m, v) # rest) ! Suc i)"
        using before gt by (auto simp: nth_Cons split: nat.splits)
      moreover have "\<forall>j<length ((m, v) # rest). snd (((m, v) # rest) ! j) \<le> snd (((m, v) # rest) ! Suc i)"
        using all gt by (auto simp: nth_Cons split: nat.splits)
      ultimately show ?thesis by blast
    next
      case nex: False
      then have le: "\<forall>x\<in>set rest. snd x \<le> v" by auto
      then have "first_best rest (Some m) v = Some m" by (rule first_best_none_better)
      with True have "first_best ((m, v) # rest) bm bv = Some (fst (((m, v) # rest) ! 0))" by simp
      moreover have "\<forall>j<length ((m, v) # rest). snd (((m, v) # rest) ! j) \<le> snd (((m, v) # rest) ! 0)"
        using le by (auto simp: nth_Cons split: nat.splits)
      moreover have "bv < snd (((m, v) # rest) ! 0)" using True by simp
      ultimately show ?thesis by (intro exI [of _ 0]) simp
    qed
  next
    case False
    with "2.prems" have ex: "\<exists>x\<in>set rest. bv < snd x" by auto
    from "2.IH"(2) [OF False ex] obtain i where i: "i < length rest"
      and r: "first_best rest bm bv = Some (fst (rest ! i))"
      and gt: "bv < snd (rest ! i)"
      and before: "\<forall>j<i. snd (rest ! j) < snd (rest ! i)"
      and all: "\<forall>j<length rest. snd (rest ! j) \<le> snd (rest ! i)" by blast
    from False gt have vlt: "v < snd (rest ! i)" by auto
    have "Suc i < length ((m, v) # rest)" using i by simp
    moreover have "first_best ((m, v) # rest) bm bv = Some (fst (((m, v) # rest) ! Suc i))"
      using False r by simp
    moreover have "bv < snd (((m, v) # rest) ! Suc i)" using gt by simp
    moreover have "\<forall>j<Suc i. snd (((m, v) # rest) ! j) < snd (((m, v) # rest) ! Suc i)"
      using before vlt by (auto simp: nth_Cons split: nat.splits)
    moreover have "\<forall>j<length ((m, v) # rest). snd (((m, v) # rest) ! j) \<le> snd (((m, v) # rest) ! Suc i)"
      using all vlt by (auto simp: nth_Cons split: nat.splits)
    ultimately show ?thesis by blast
  qed
qed

lemma minimax_negative_depth:
  "d < 0 \<Longrightarrow> d' < 0 \<Longrightarrow> minimax frames R b d a be mx = minimax frames R b d' a be mx"
proof (induction frames arbitrary: b d d' a be mx)
  case 0
  show ?case by simp
next
  case (Suc frames)
  from Suc.prems have n: "d - 1 < 0" "d' - 1 < 0" "d \<noteq> 0" "d' \<noteq> 0" by simp_all
  have c: "(\<lambda>b' a' be'. minimax frames R b' (d - 1) a' be' mx') =
           (\<lambda>b' a' be'. minimax frames R b' (d' - 1) a' be' mx')" for mx'
    by (intro ext Suc.IH n)
  show ?case by (simp add: n c)
qed

lemma minimax_negative_unbounded:
  "d < 0 \<Longrightarrow> frames \<le> n \<Longrightarrow>
   minimax frames R b d a be mx = minimax frames R b (int n) a be mx"
proof (induction frames arbitrary: b d n a be mx)
  case 0
  show ?case by simp
next
  case (Suc frames)
  from Suc.prems have d: "d - 1 < 0" "d \<noteq> 0" by simp_all
  from Suc.prems have n: "frames \<le> n - 1" "int n \<noteq> 0" "int n - 1 = int (n - 1)" by simp_all
  have c: "(\<lambda>b' a' be'. minimax frames R b' (d - 1) a' be' mx') =
           (\<lambda>b' a' be'. minimax frames R b' (int n - 1) a' be' mx')" for mx'
    unfolding n(3) by (intro ext Suc.IH d n)
  show ?case by (simp only: minimax.simps d n(2) c) 
qed

section \<open>The search engine\<close>

text \<open>
  C1. For every position and every depth from 1 on (so for the depths 1 to 4), given
  stack frames for the recursion, \<^verbatim>\<open>find_best_move\<close> returns the move that the same root
  loop picks from the scores of exhaustive minimax at that depth, and the root score
  \<^verbatim>\<open>minimax(board, depth, -inf, inf, maximizing)\<close> equals the exhaustive minimax
  value; both leave the board as it was.
\<close>

theorem pruning_equivalence:
  assumes "1 \<le> d" and "d < frames"
  shows "find_best_move frames R b (int d) = (Inr (find_best_move_exhaustive R d b), b) \<and>
         minimax frames R b (int d) NegInf PosInf maximizing =
           (Inr (minimax_exhaustive R d b maximizing), b)"
proof -
  from assms have "d \<le> frames" by simp
  with assms(1) have "find_best_move frames R b (int d) = (Inr (find_best_move_exhaustive R d b), b)"
    by (rule find_best_move_values)
  moreover have "minimax frames R b (int d) NegInf PosInf maximizing =
      (Inr (minimax_exhaustive R d b maximizing), b)"
    using minimax_alphabeta [OF assms(2), of R b NegInf PosInf maximizing]
    by (simp only: alphabeta_full_window)
  ultimately show ?thesis by (rule conjI)
qed

theorem pruning_equivalence_witness:
  "(1::nat) \<le> 2 \<and> (2::nat) < 5 \<and>
   find_best_move 5 tree_rules (at_position 0) 2 = (Inr (Some 1), at_position 0) \<and>
   find_best_move_exhaustive tree_rules 2 (at_position 0) = Some 1 \<and>
   minimax 5 tree_rules (at_position 0) 2 NegInf PosInf True = (Inr (Fin 0), at_position 0) \<and>
   minimax_exhaustive tree_rules 2 (at_position 0) True = Fin 0"
proof -
  have h1: "(1::nat) \<le> 2" and h2: "(2::nat) < 5"
    by simp_all
  have e1: "find_best_move_exhaustive tree_rules 2 (at_position 0) = Some 1"
    by code_simp
  have e2: "minimax_exhaustive tree_rules 2 (at_position 0) True = Fin 0"
    by code_simp
  from pruning_equivalence [OF h1 h2, of tree_rules "at_position 0" True] e1 e2 h1 h2
  show ?thesis by simp
qed

text \<open>
  C5. At a position with at least one legal move and a depth of at least 1 (and frames for
  it), under rules where a position without legal moves is terminal,
  \<^verbatim>\<open>find_best_move\<close> returns a move: every root move \<open>m\<close> gets a score \<open>sc m\<close> from
  push, \<^verbatim>\<open>minimax(board, depth-1, -inf, inf, False)\<close>, pop, and the move returned is
  the one at the index \<open>i\<close> of the enumeration whose score is strictly greater than every
  score before it and not exceeded by any score at all.
\<close>

theorem find_best_move_first_maximum:
  assumes "no_moves_terminal R" and "legal_moves R (cur b) \<noteq> []" and "1 \<le> d" and "d \<le> frames"
  shows "\<exists>sc. (\<forall>m\<in>set (legal_moves R (cur b)).
                 minimax frames R (push R b m) (int d - 1) NegInf PosInf False =
                   (Inr (sc m), push R b m)) \<and>
              (\<exists>i<length (legal_moves R (cur b)).
                 find_best_move frames R b (int d) = (Inr (Some (legal_moves R (cur b) ! i)), b) \<and>
                 (\<forall>j<i. sc (legal_moves R (cur b) ! j) < sc (legal_moves R (cur b) ! i)) \<and>
                 (\<forall>j<length (legal_moves R (cur b)).
                    sc (legal_moves R (cur b) ! j) \<le> sc (legal_moves R (cur b) ! i)))"
proof -
  let ?ms = "legal_moves R (cur b)"
  let ?sc = "\<lambda>m. minimax_exhaustive R (d - 1) (push R b m) False"
  let ?xs = "map (\<lambda>m. (m, ?sc m)) ?ms"
  from assms(3,4) have lt: "d - 1 < frames" by simp
  from assms(3) have i: "int d - 1 = int (d - 1)" by simp
  have ch: "minimax frames R (push R b m) (int d - 1) NegInf PosInf False = (Inr (?sc m), push R b m)"
    for m
    using minimax_alphabeta [OF lt, of R "push R b m" NegInf PosInf False]
    by (simp only: i alphabeta_full_window)
  from assms(2) obtain m0 where m0: "m0 \<in> set ?ms" by (cases ?ms) auto
  from minimax_exhaustive_finite [OF assms(1), of "d - 1" "push R b m0" False]
  have "NegInf < ?sc m0" by (auto simp: less_score_def)
  with m0 have "\<exists>x\<in>set ?xs. NegInf < snd x" by auto
  from first_best_first_maximum [OF this, of None]
  obtain k where k: "k < length ?xs"
    and r: "first_best ?xs None NegInf = Some (fst (?xs ! k))"
    and before: "\<forall>j<k. snd (?xs ! j) < snd (?xs ! k)"
    and all: "\<forall>j<length ?xs. snd (?xs ! j) \<le> snd (?xs ! k)" by blast
  from k have k': "k < length ?ms" by simp
  have "find_best_move frames R b (int d) = (Inr (find_best_move_exhaustive R d b), b)"
    using assms(3,4) by (rule find_best_move_values)
  with r k' have f: "find_best_move frames R b (int d) = (Inr (Some (?ms ! k)), b)"
    by (simp add: find_best_move_exhaustive_def)
  from before k' have b': "\<forall>j<k. ?sc (?ms ! j) < ?sc (?ms ! k)" by simp
  from all k' have a': "\<forall>j<length ?ms. ?sc (?ms ! j) \<le> ?sc (?ms ! k)" by simp
  have A: "\<forall>m\<in>set ?ms. minimax frames R (push R b m) (int d - 1) NegInf PosInf False =
             (Inr (?sc m), push R b m)"
    using ch by blast
  have B: "\<exists>i<length ?ms. find_best_move frames R b (int d) = (Inr (Some (?ms ! i)), b) \<and>
             (\<forall>j<i. ?sc (?ms ! j) < ?sc (?ms ! i)) \<and>
             (\<forall>j<length ?ms. ?sc (?ms ! j) \<le> ?sc (?ms ! i))"
    using k' f b' a' by blast
  from A B show ?thesis by (intro exI [of _ ?sc] conjI)
qed

theorem find_best_move_first_maximum_witness:
  "no_moves_terminal tree_rules \<and> legal_moves tree_rules (cur (at_position 0)) \<noteq> [] \<and>
   (1::nat) \<le> 2 \<and> (2::nat) \<le> 5 \<and>
   (\<exists>i<length (legal_moves tree_rules (cur (at_position 0))).
      find_best_move 5 tree_rules (at_position 0) (int 2) =
        (Inr (Some (legal_moves tree_rules (cur (at_position 0)) ! i)), at_position 0))"
proof -
  have h1: "no_moves_terminal tree_rules"
    by (simp add: no_moves_terminal_def tree_rules_def)
  have h2: "legal_moves tree_rules (cur (at_position 0)) \<noteq> []"
    by (simp add: tree_rules_def at_position_def)
  have h3: "(1::nat) \<le> 2" and h4: "(2::nat) \<le> 5"
    by simp_all
  from find_best_move_first_maximum [OF h1 h2 h3 h4] h1 h2 h3 h4
  show ?thesis by blast
qed

text \<open>
  C3, as the code has it. No depth is rejected and none is clamped. \<^verbatim>\<open>minimax\<close> at
  depth 0 returns the static evaluation at once. At a negative depth the test
  \<^verbatim>\<open>depth == 0\<close> never holds: the call stops only at a terminal position and otherwise
  runs its loop over the legal moves with the depth lowered again, so it is the search
  with a ply budget too large to run out (any budget no smaller than the frames
  available), and in particular the same for every negative depth.
  \<^verbatim>\<open>find_best_move\<close> at a depth of 0 or less scores its root moves by that search:
  it behaves as with such a large budget, and as at depth 0.
\<close>

theorem nonpositive_depth_searches:
  "minimax (Suc frames) R b 0 alpha beta maximizing = (Inr (Fin (evaluate_board R b)), b) \<and>
   (depth < 0 \<longrightarrow>
      minimax (Suc frames) R b depth alpha beta maximizing =
        (if is_game_over R (cur b) then (Inr (Fin (evaluate_board R b)), b)
         else if maximizing then
           max_loop (\<lambda>b' a' be'. minimax frames R b' (depth - 1) a' be' False) R b
             (legal_moves R (cur b)) NegInf alpha beta
         else
           min_loop (\<lambda>b' a' be'. minimax frames R b' (depth - 1) a' be' True) R b
             (legal_moves R (cur b)) PosInf alpha beta)) \<and>
   (depth < 0 \<and> frames \<le> n \<longrightarrow>
      minimax frames R b depth alpha beta maximizing =
        minimax frames R b (int n) alpha beta maximizing) \<and>
   (depth < 0 \<longrightarrow>
      minimax frames R b depth alpha beta maximizing = minimax frames R b (- 1) alpha beta maximizing) \<and>
   (depth \<le> 0 \<and> frames \<le> n \<longrightarrow>
      find_best_move frames R b depth = find_best_move frames R b (int (Suc n))) \<and>
   (depth \<le> 0 \<longrightarrow> find_best_move frames R b depth = find_best_move frames R b 0)"
proof -
  have 1: "minimax (Suc frames) R b 0 alpha beta maximizing = (Inr (Fin (evaluate_board R b)), b)"
    by simp
  have 2: "minimax (Suc frames) R b depth alpha beta maximizing =
        (if is_game_over R (cur b) then (Inr (Fin (evaluate_board R b)), b)
         else if maximizing then
           max_loop (\<lambda>b' a' be'. minimax frames R b' (depth - 1) a' be' False) R b
             (legal_moves R (cur b)) NegInf alpha beta
         else
           min_loop (\<lambda>b' a' be'. minimax frames R b' (depth - 1) a' be' True) R b
             (legal_moves R (cur b)) PosInf alpha beta)"
    if "depth < 0"
    using that by simp
  have 3: "minimax frames R b depth alpha beta maximizing =
        minimax frames R b (int n) alpha beta maximizing"
    if "depth < 0" "frames \<le> n"
    using that by (rule minimax_negative_unbounded)
  have 4: "minimax frames R b depth alpha beta maximizing = minimax frames R b (- 1) alpha beta maximizing"
    if "depth < 0"
    using that by (rule minimax_negative_depth) simp
  have 5: "find_best_move frames R b depth = find_best_move frames R b (int (Suc n))"
    if "depth \<le> 0" "frames \<le> n"
  proof -
    have "(\<lambda>b'. minimax frames R b' (depth - 1) NegInf PosInf False) =
          (\<lambda>b'. minimax frames R b' (int n) NegInf PosInf False)"
      by (intro ext minimax_negative_unbounded) (use that in simp_all)
    moreover have "int (Suc n) - 1 = int n" by simp
    ultimately show ?thesis by (simp only: find_best_move_def)
  qed
  have 6: "find_best_move frames R b depth = find_best_move frames R b 0" if "depth \<le> 0"
  proof -
    have "(\<lambda>b'. minimax frames R b' (depth - 1) NegInf PosInf False) =
          (\<lambda>b'. minimax frames R b' (0 - 1) NegInf PosInf False)"
      by (intro ext minimax_negative_depth) (use that in simp_all)
    then show ?thesis by (simp only: find_best_move_def)
  qed
  from 1 2 3 4 5 6 show ?thesis by blast
qed

theorem nonpositive_depth_searches_witness:
  "(- 3 :: int) < 0 \<and> (- 3 :: int) \<le> 0 \<and> (5::nat) \<le> 5 \<and>
   \<not> is_game_over tree_rules (cur (at_position 2)) \<and>
   evaluate_board tree_rules (at_position 2) = - 5 \<and>
   minimax 5 tree_rules (at_position 2) (- 3) NegInf PosInf False =
     (Inr (Fin (- 10000)), at_position 2) \<and>
   minimax 5 tree_rules (at_position 2) (- 3) NegInf PosInf False =
     minimax 5 tree_rules (at_position 2) 5 NegInf PosInf False \<and>
   minimax 5 tree_rules (at_position 0) (- 3) NegInf PosInf True = (Inr (Fin 0), at_position 0) \<and>
   find_best_move 5 tree_rules (at_position 0) (- 3) = (Inr (Some 1), at_position 0) \<and>
   find_best_move 5 tree_rules (at_position 0) (- 3) = find_best_move 5 tree_rules (at_position 0) 6"
proof -
  have h1: "(- 3 :: int) < 0" and h2: "(- 3 :: int) \<le> 0" and h3: "(5::nat) \<le> 5"
    by simp_all
  have g: "\<not> is_game_over tree_rules (cur (at_position 2))"
    by code_simp
  have e: "evaluate_board tree_rules (at_position 2) = - 5"
    by code_simp
  have m2: "minimax 5 tree_rules (at_position 2) (int 5) NegInf PosInf False =
            (Inr (Fin (- 10000)), at_position 2)"
    by code_simp
  have m0: "minimax 5 tree_rules (at_position 0) (- 1) NegInf PosInf True = (Inr (Fin 0), at_position 0)"
    by code_simp
  have f: "find_best_move 5 tree_rules (at_position 0) 0 = (Inr (Some 1), at_position 0)"
    by code_simp
  note b = nonpositive_depth_searches [of 5 tree_rules "at_position 2" NegInf PosInf False "- 3" 5]
  note c = nonpositive_depth_searches [of 5 tree_rules "at_position 0" NegInf PosInf True "- 3" 5]
  from b h1 h3 have b3: "minimax 5 tree_rules (at_position 2) (- 3) NegInf PosInf False =
      minimax 5 tree_rules (at_position 2) (int 5) NegInf PosInf False" by blast
  from c h1 have c4: "minimax 5 tree_rules (at_position 0) (- 3) NegInf PosInf True =
      minimax 5 tree_rules (at_position 0) (- 1) NegInf PosInf True" by blast
  from c h2 h3 have c5: "find_best_move 5 tree_rules (at_position 0) (- 3) =
      find_best_move 5 tree_rules (at_position 0) (int (Suc 5))" by blast
  from c h2 have c6: "find_best_move 5 tree_rules (at_position 0) (- 3) =
      find_best_move 5 tree_rules (at_position 0) 0" by blast
  from h1 h2 h3 g e m2 m0 f b3 c4 c5 c6 show ?thesis by simp
qed

text \<open>
  C3 as stated fails: at depth 0 \<^verbatim>\<open>minimax\<close> returns a score and
  \<^verbatim>\<open>find_best_move\<close> returns a move, and so it does at depth -1.
\<close>

theorem nonpositive_depth_counterexample:
  "minimax 5 tree_rules (at_position 0) 0 NegInf PosInf True = (Inr (Fin 0), at_position 0) \<and>
   find_best_move 5 tree_rules (at_position 0) 0 = (Inr (Some 1), at_position 0) \<and>
   find_best_move 5 tree_rules (at_position 0) (- 1) = (Inr (Some 1), at_position 0)"
  by code_simp

end
